theory Spec2Isabelle
  imports Main
begin

section \<open>Values handed to numpy\<close>

text \<open>
  A measurement entry of \<^verbatim>\<open>RunResult.measurements\<close> is a nested Python list of
  integers (\<^verbatim>\<open>list[list[int]]\<close> when it comes from the server; the embedding also
  covers scalars and flat or deeper lists, which \<^verbatim>\<open>np.array\<close> accepts as well).
  Integers are unbounded; values outside numpy's machine integer are not considered.
\<close>

datatype pyval = PInt int | PList "pyval list"

text \<open>
  \<^verbatim>\<open>np.array(v, dtype=int).shape\<close>: a scalar has shape \<^verbatim>\<open>()\<close>, an empty list
  \<^verbatim>\<open>(0,)\<close>, a list whose elements all have the shape \<open>d\<close> has the shape
  \<open>len # d\<close>. A ragged list cannot be converted with \<^verbatim>\<open>dtype=int\<close>: numpy raises
  its own \<^verbatim>\<open>ValueError\<close>, modelled by \<open>None\<close>.
\<close>

fun np_shape :: "pyval \<Rightarrow> nat list option" where
  "np_shape (PInt i) = Some []"
| "np_shape (PList xs) =
     (case map np_shape xs of
        [] \<Rightarrow> Some [0]
      | sh # shs \<Rightarrow>
          (case sh of
             None \<Rightarrow> None
           | Some d \<Rightarrow> if list_all (\<lambda>s. s = Some d) shs then Some (length xs # d) else None))"

text \<open>The elements of the array in row-major order.\<close>

fun np_flat :: "pyval \<Rightarrow> int list" where
  "np_flat (PInt i) = [i]"
| "np_flat (PList xs) = concat (map np_flat xs)"

text \<open>\<^verbatim>\<open>res[:, 0]\<close> of a two-dimensional array: the first element of every row.\<close>

definition column0 :: "pyval \<Rightarrow> int list" where
  "column0 v = (case v of PInt i \<Rightarrow> [] | PList rs \<Rightarrow> map (\<lambda>r. hd (np_flat r)) rs)"

text \<open>Python's \<^verbatim>\<open>len\<close>, which a scalar does not have.\<close>

definition py_len :: "pyval \<Rightarrow> nat option" where
  "py_len v = (case v of PInt i \<Rightarrow> None | PList xs \<Rightarrow> Some (length xs))"

section \<open>Measurement keys and errors\<close>

text \<open>
  \<^verbatim>\<open>MeasurementKey\<close> lives in \<^verbatim>\<open>qiskit_iqm.qiskit_to_iqm\<close>; the reassembly
  reads the three attributes below. Its parser \<^verbatim>\<open>MeasurementKey.from_string\<close> is a
  parameter \<open>from_string\<close> of every function that needs it.
\<close>

record MeasurementKey =
  creg_len :: nat
  creg_idx :: nat
  clbit_idx :: nat

datatype error =
    StopIteration
  | TypeError
  | NumpyValueError
  | ShapeValueError MeasurementKey "nat list" "nat list"
  | IndexError
  | NotImplementedError string
  | ExternalError string

type_synonym key_parser = "string \<Rightarrow> error + MeasurementKey"

section \<open>Register grids\<close>

text \<open>
  A register's grid is the array \<^verbatim>\<open>np.zeros((shots, creg_len), dtype=int)\<close>; the
  number of columns is kept beside the rows, as numpy does when there are no rows.
\<close>

record grid =
  ncols :: nat
  cells :: "int list list"

definition np_zeros :: "nat \<Rightarrow> nat \<Rightarrow> grid" where
  "np_zeros n m = \<lparr>ncols = m, cells = replicate n (replicate m 0)\<rparr>"

text \<open>\<^verbatim>\<open>creg[:, j] = res\<close>; numpy raises \<^verbatim>\<open>IndexError\<close> for a column out of range.\<close>

definition set_column :: "grid \<Rightarrow> nat \<Rightarrow> int list \<Rightarrow> error + grid" where
  "set_column g j res =
     (if j < ncols g
      then Inr (g\<lparr>cells := map (\<lambda>(row, x). row[j := x]) (zip (cells g) res)\<rparr>)
      else Inl IndexError)"

text \<open>
  The dictionary \<^verbatim>\<open>measurements\<close>, from \<^verbatim>\<open>creg_idx\<close> to the grid, in insertion
  order. \<^verbatim>\<open>setdefault\<close> appends the default under a new key and returns the grid
  stored under the key.
\<close>

type_synonym cregs = "(nat \<times> grid) list"

definition setdefault :: "cregs \<Rightarrow> nat \<Rightarrow> grid \<Rightarrow> cregs \<times> grid" where
  "setdefault d i dflt =
     (case map_of d i of
        Some g \<Rightarrow> (d, g)
      | None \<Rightarrow> (d @ [(i, dflt)], dflt))"

text \<open>The grid is updated in place: the dictionary sees the new column.\<close>

definition store :: "cregs \<Rightarrow> nat \<Rightarrow> grid \<Rightarrow> cregs" where
  "store d i g = map (\<lambda>(j, h). if j = i then (j, g) else (j, h)) d"

section \<open>Reassembly: \<^verbatim>\<open>IQMJob._format_iqm_result\<close>\<close>

text \<open>
  Line 47: \<^verbatim>\<open>self.metadata.get('shots', len(next(iter(measurements.values()))))\<close>.
  Python evaluates the default before the lookup: an empty map raises
  \<^verbatim>\<open>StopIteration\<close> and a first entry without a length raises \<^verbatim>\<open>TypeError\<close>,
  whether or not the metadata records the shots.
\<close>

definition get_shots :: "nat option \<Rightarrow> (string \<times> pyval) list \<Rightarrow> error + nat" where
  "get_shots md_shots ms =
     (case ms of
        [] \<Rightarrow> Inl StopIteration
      | (k, v) # rest \<Rightarrow>
          (case v of
             PInt i \<Rightarrow> Inl TypeError
           | PList xs \<Rightarrow>
               Inr (case md_shots of Some n \<Rightarrow> n | None \<Rightarrow> length xs)))"

text \<open>The body of the loop over \<^verbatim>\<open>iqm_result.measurements.items()\<close>, lines 52 to 61.\<close>

definition add_measurement :: "key_parser \<Rightarrow> nat \<Rightarrow> cregs \<Rightarrow> string \<times> pyval \<Rightarrow> error + cregs" where
  "add_measurement from_string shots d kv =
     (case from_string (fst kv) of
        Inl e \<Rightarrow> Inl e
      | Inr mk \<Rightarrow>
          (case np_shape (snd kv) of
             None \<Rightarrow> Inl NumpyValueError
           | Some sh \<Rightarrow>
               if sh \<noteq> [shots, 1] then Inl (ShapeValueError mk sh [shots, 1])
               else
                 (let res = column0 (snd kv);
                      (d', creg) = setdefault d (creg_idx mk) (np_zeros shots (creg_len mk))
                  in case set_column creg (clbit_idx mk) res of
                       Inl e \<Rightarrow> Inl e
                     | Inr creg' \<Rightarrow> Inr (store d' (creg_idx mk) creg'))))"

fun group_measurements :: "key_parser \<Rightarrow> nat \<Rightarrow> cregs \<Rightarrow> (string \<times> pyval) list \<Rightarrow> error + cregs" where
  "group_measurements from_string shots d [] = Inr d"
| "group_measurements from_string shots d (kv # rest) =
     (case add_measurement from_string shots d kv of
        Inl e \<Rightarrow> Inl e
      | Inr d' \<Rightarrow> group_measurements from_string shots d' rest)"

text \<open>\<^verbatim>\<open>str\<close> of an integer.\<close>

fun str_nat :: "nat \<Rightarrow> string" where
  "str_nat n =
     (if n < 10 then [''0123456789'' ! n]
      else str_nat (n div 10) @ [''0123456789'' ! (n mod 10)])"

definition str_int :: "int \<Rightarrow> string" where
  "str_int i = (if i < 0 then CHR ''-'' # str_nat (nat (- i)) else str_nat (nat i))"

text \<open>\<^verbatim>\<open>' '.join(...)\<close>\<close>

fun join_space :: "string list \<Rightarrow> string" where
  "join_space [] = []"
| "join_space [x] = x"
| "join_space (x # y # ys) = x @ CHR '' '' # join_space (y # ys)"

text \<open>
  \<^verbatim>\<open>sorted(measurements.items(), reverse=True)\<close>: the keys of a dictionary are
  distinct, so the order is the reverse of the ascending order of the keys and the grids
  are never compared.
\<close>

definition sorted_reverse :: "cregs \<Rightarrow> cregs" where
  "sorted_reverse d = rev (sort_key fst d)"

text \<open>The list comprehension of lines 65 to 69.\<close>

definition shot_string :: "cregs \<Rightarrow> nat \<Rightarrow> string" where
  "shot_string d s =
     join_space (map (\<lambda>(i, res). concat (map str_int (rev (cells res ! s)))) (sorted_reverse d))"

definition format_iqm_result :: "key_parser \<Rightarrow> nat option \<Rightarrow> (string \<times> pyval) list \<Rightarrow> error + string list" where
  "format_iqm_result from_string md_shots ms =
     (case get_shots md_shots ms of
        Inl e \<Rightarrow> Inl e
      | Inr shots \<Rightarrow>
          (case group_measurements from_string shots [] ms of
             Inl e \<Rightarrow> Inl e
           | Inr d \<Rightarrow> Inr (map (shot_string d) [0..<shots])))"

section \<open>The job: \<^verbatim>\<open>IQMJob\<close>\<close>

text \<open>
  The job keeps its identifier, the shots recorded in its metadata (when the backend
  recorded them) and \<^verbatim>\<open>self._result\<close>, which is \<^verbatim>\<open>None\<close> until a reassembly
  has been stored.
\<close>

record Job =
  job_id :: string
  metadata_shots :: "nat option"
  priv_result :: "string list option"

text \<open>The truth value Python gives \<^verbatim>\<open>self._result\<close>: \<^verbatim>\<open>None\<close> and \<^verbatim>\<open>[]\<close> are false.\<close>

definition truthy :: "string list option \<Rightarrow> bool" where
  "truthy r = (case r of None \<Rightarrow> False | Some xs \<Rightarrow> xs \<noteq> [])"

text \<open>What the execution service answers (\<^verbatim>\<open>iqm_client.RunResult\<close>, \<^verbatim>\<open>RunStatus\<close>).\<close>

datatype RunStatus = PENDING | READY | FAILED

record RunResult =
  run_status :: RunStatus
  measurements :: "(string \<times> pyval) list"

datatype JobStatus = INITIALIZING | QUEUED | VALIDATING | RUNNING | CANCELLED | DONE | ERROR

text \<open>
  The trace records every call of the client and every reassembly pass, in order. A
  UUID is its 128-bit integer.
\<close>

type_synonym uuid = nat

datatype event = WaitForResults uuid | GetRun uuid | FormatIqmResult

text \<open>
  Everything outside the module: the key parser, \<^verbatim>\<open>uuid.UUID\<close> (which raises on a
  malformed string) and the two operations of the client, whose answer may depend on
  all that happened before and which may raise.
\<close>

record Env =
  mk_from_string :: key_parser
  UUID :: "string \<Rightarrow> error + uuid"
  wait_for_results :: "event list \<Rightarrow> uuid \<Rightarrow> error + RunResult"
  get_run :: "event list \<Rightarrow> uuid \<Rightarrow> error + RunResult"

type_synonym state = "event list \<times> Job"

text \<open>
  \<^verbatim>\<open>collections.Counter\<close> of a list: every element is counted under its key, keys
  in the order of first occurrence. \<^verbatim>\<open>Counts\<close> keeps a dictionary whose keys are
  bitstrings as it is.
\<close>

fun counter_incr :: "'a \<Rightarrow> ('a \<times> nat) list \<Rightarrow> ('a \<times> nat) list" where
  "counter_incr x [] = [(x, 1)]"
| "counter_incr x ((y, c) # r) = (if x = y then (y, c + 1) # r else (y, c) # counter_incr x r)"

definition Counter :: "'a list \<Rightarrow> ('a \<times> nat) list" where
  "Counter xs = foldl (\<lambda>c x. counter_incr x c) [] xs"

record ExperimentResult =
  shots :: nat
  exp_success :: bool
  memory :: "string list"
  counts :: "(string \<times> nat) list"

type_synonym date = nat

record Result =
  backend_name :: "string option"
  backend_version :: "string option"
  qobj_id :: "string option"
  res_job_id :: string
  success :: bool
  results :: "ExperimentResult list"
  date :: date

text \<open>The dictionary of lines 82 to 96; \<open>today\<close> is what \<^verbatim>\<open>date.today()\<close> returns.\<close>

definition result_dict :: "string \<Rightarrow> string list \<Rightarrow> date \<Rightarrow> Result" where
  "result_dict jid mem today =
     \<lparr>backend_name = None, backend_version = None, qobj_id = None, res_job_id = jid,
      success = True,
      results = [\<lparr>shots = length mem, exp_success = True, memory = mem, counts = Counter mem\<rparr>],
      date = today\<rparr>"

text \<open>
  \<^verbatim>\<open>IQMJob.result\<close>. An exception leaves \<^verbatim>\<open>self._result\<close> as it was; the call of the
  client that came before it stays in the trace.
\<close>

definition result :: "Env \<Rightarrow> date \<Rightarrow> state \<Rightarrow> state \<times> (error + Result)" where
  "result env today st =
     (let (tr, j) = st;
          fetched =
            (if \<not> truthy (priv_result j) then
               (case UUID env (job_id j) of
                  Inl e \<Rightarrow> Inl ((tr, j), e)
                | Inr u \<Rightarrow>
                    (case wait_for_results env tr u of
                       Inl e \<Rightarrow> Inl ((tr @ [WaitForResults u], j), e)
                     | Inr r \<Rightarrow>
                         (case format_iqm_result (mk_from_string env) (metadata_shots j) (measurements r) of
                            Inl e \<Rightarrow> Inl ((tr @ [WaitForResults u, FormatIqmResult], j), e)
                          | Inr mem \<Rightarrow>
                              Inr (tr @ [WaitForResults u, FormatIqmResult], j\<lparr>priv_result := Some mem\<rparr>))))
             else Inr (tr, j))
      in case fetched of
           Inl (st', e) \<Rightarrow> (st', Inl e)
         | Inr (tr', j') \<Rightarrow>
             (case priv_result j' of
                None \<Rightarrow> ((tr', j'), Inl TypeError)
              | Some mem \<Rightarrow> ((tr', j'), Inr (result_dict (job_id j') mem today))))"

text \<open>\<^verbatim>\<open>IQMJob.status\<close>\<close>

definition status :: "Env \<Rightarrow> state \<Rightarrow> state \<times> (error + JobStatus)" where
  "status env st =
     (let (tr, j) = st in
      if truthy (priv_result j) then ((tr, j), Inr DONE)
      else
        (case UUID env (job_id j) of
           Inl e \<Rightarrow> ((tr, j), Inl e)
         | Inr u \<Rightarrow>
             (case get_run env tr u of
                Inl e \<Rightarrow> ((tr @ [GetRun u], j), Inl e)
              | Inr r \<Rightarrow>
                  if run_status r = READY then
                    (case format_iqm_result (mk_from_string env) (metadata_shots j) (measurements r) of
                       Inl e \<Rightarrow> ((tr @ [GetRun u, FormatIqmResult], j), Inl e)
                     | Inr mem \<Rightarrow>
                         ((tr @ [GetRun u, FormatIqmResult], j\<lparr>priv_result := Some mem\<rparr>), Inr DONE))
                  else ((tr @ [GetRun u], j), Inr RUNNING))))"

text \<open>\<^verbatim>\<open>IQMJob.submit\<close> and \<^verbatim>\<open>IQMJob.cancel\<close>\<close>

definition submit :: "state \<Rightarrow> state \<times> (error + unit)" where
  "submit st = (st, Inl (NotImplementedError ''Instead, use IQMBackend.run to submit jobs.''))"

definition cancel :: "state \<Rightarrow> state \<times> (error + unit)" where
  "cancel st = (st, Inl (NotImplementedError ''Canceling jobs is currently not supported.''))"

text \<open>A run of \<open>n\<close> successive calls of \<^verbatim>\<open>status()\<close>: the last state and what each call gave.\<close>

fun status_calls :: "Env \<Rightarrow> nat \<Rightarrow> state \<Rightarrow> state \<times> (error + JobStatus) list" where
  "status_calls env 0 st = (st, [])"
| "status_calls env (Suc n) st =
     (let (st1, r) = status env st; (st2, rs) = status_calls env n st1 in (st2, r # rs))"

section \<open>The reassembly as the specification words it\<close>

text \<open>
  Section 4.1 of the specification, steps 3 to 6, read off the raw map: the registers
  are the distinct \<^verbatim>\<open>creg_idx\<close> of the keys, highest first; a register is as wide as
  the key that first names it says; the bit \<open>b\<close> of register \<open>i\<close> in shot \<open>s\<close> is
  what the last entry for \<open>(i, b)\<close> holds, and 0 when no entry writes it.
\<close>

definition in_register :: "key_parser \<Rightarrow> nat \<Rightarrow> string \<times> pyval \<Rightarrow> bool" where
  "in_register p i kv = (case p (fst kv) of Inl e \<Rightarrow> False | Inr mk \<Rightarrow> creg_idx mk = i)"

definition writes_bit :: "key_parser \<Rightarrow> nat \<Rightarrow> nat \<Rightarrow> string \<times> pyval \<Rightarrow> bool" where
  "writes_bit p i b kv =
     (case p (fst kv) of Inl e \<Rightarrow> False | Inr mk \<Rightarrow> creg_idx mk = i \<and> clbit_idx mk = b)"

definition register_indices :: "key_parser \<Rightarrow> (string \<times> pyval) list \<Rightarrow> nat list" where
  "register_indices p ms =
     concat (map (\<lambda>kv. case p (fst kv) of Inl e \<Rightarrow> [] | Inr mk \<Rightarrow> [creg_idx mk]) ms)"

definition registers_desc :: "key_parser \<Rightarrow> (string \<times> pyval) list \<Rightarrow> nat list" where
  "registers_desc p ms = rev (sort (remdups (register_indices p ms)))"

definition register_width :: "key_parser \<Rightarrow> (string \<times> pyval) list \<Rightarrow> nat \<Rightarrow> nat" where
  "register_width p ms i =
     (case find (in_register p i) ms of
        None \<Rightarrow> 0
      | Some kv \<Rightarrow> (case p (fst kv) of Inl e \<Rightarrow> 0 | Inr mk \<Rightarrow> creg_len mk))"

definition bit_value :: "key_parser \<Rightarrow> (string \<times> pyval) list \<Rightarrow> nat \<Rightarrow> nat \<Rightarrow> nat \<Rightarrow> int" where
  "bit_value p ms i b s =
     (case find (writes_bit p i b) (rev ms) of
        None \<Rightarrow> 0
      | Some kv \<Rightarrow> column0 (snd kv) ! s)"

definition spec_register_string :: "key_parser \<Rightarrow> (string \<times> pyval) list \<Rightarrow> nat \<Rightarrow> nat \<Rightarrow> string" where
  "spec_register_string p ms s i =
     concat (map (\<lambda>b. str_int (bit_value p ms i b s)) (rev [0..<register_width p ms i]))"

definition spec_shot_string :: "key_parser \<Rightarrow> (string \<times> pyval) list \<Rightarrow> nat \<Rightarrow> string" where
  "spec_shot_string p ms s = join_space (map (spec_register_string p ms s) (registers_desc p ms))"

section \<open>Views of the register dictionary\<close>

text \<open>
  What the proofs keep about the dictionary while the loop runs: distinct keys, grids of
  \<open>shots\<close> rows as long as the grid is wide; and the cell and width under a key.
\<close>

definition grid_ok :: "nat \<Rightarrow> grid \<Rightarrow> bool" where
  "grid_ok n g \<longleftrightarrow> length (cells g) = n \<and> list_all (\<lambda>row. length row = ncols g) (cells g)"

definition cregs_ok :: "nat \<Rightarrow> cregs \<Rightarrow> bool" where
  "cregs_ok n d \<longleftrightarrow> distinct (map fst d) \<and> list_all (\<lambda>ig. grid_ok n (snd ig)) d"

definition creg_cell :: "cregs \<Rightarrow> nat \<Rightarrow> nat \<Rightarrow> nat \<Rightarrow> int" where
  "creg_cell d i s b = (case map_of d i of None \<Rightarrow> 0 | Some g \<Rightarrow> cells g ! s ! b)"

section \<open>Concrete inputs\<close>

text \<open>
  A key parser given by a table, a column of one-element rows, and a client that
  answers every call with the same run and takes the length of the job's identifier for
  its UUID; they instantiate the theorems below.
\<close>

definition table_parser :: "(string \<times> MeasurementKey) list \<Rightarrow> key_parser" where
  "table_parser t k =
     (case map_of t k of
        None \<Rightarrow> Inl (ExternalError ''Invalid measurement key string representation.'')
      | Some mk \<Rightarrow> Inr mk)"

definition column :: "int list \<Rightarrow> pyval" where
  "column xs = PList (map (\<lambda>x. PList [PInt x]) xs)"

definition two_registers :: "(string \<times> MeasurementKey) list" where
  "two_registers =
     [(''c_2_0_0'', \<lparr>creg_len = 2, creg_idx = 0, clbit_idx = 0\<rparr>),
      (''c_2_0_1'', \<lparr>creg_len = 2, creg_idx = 0, clbit_idx = 1\<rparr>),
      (''d_3_1_0'', \<lparr>creg_len = 3, creg_idx = 1, clbit_idx = 0\<rparr>),
      (''d_3_1_1'', \<lparr>creg_len = 3, creg_idx = 1, clbit_idx = 1\<rparr>),
      (''d_3_1_2'', \<lparr>creg_len = 3, creg_idx = 1, clbit_idx = 2\<rparr>)]"


text \<open>A register of four bits of which only the bits 0 and 2 are measured, two shots.\<close>

definition four_bit_register :: "(string \<times> MeasurementKey) list" where
  "four_bit_register =
     [(''q_4_0_0'', \<lparr>creg_len = 4, creg_idx = 0, clbit_idx = 0\<rparr>),
      (''q_4_0_2'', \<lparr>creg_len = 4, creg_idx = 0, clbit_idx = 2\<rparr>)]"

definition zero_fill_example :: "(string \<times> pyval) list" where
  "zero_fill_example = [(''q_4_0_0'', column [1, 0]), (''q_4_0_2'', column [1, 1])]"

definition one_bit_run :: RunResult where
  "one_bit_run = \<lparr>run_status = READY, measurements = [(''c_2_0_0'', column [1, 0])]\<rparr>"

text \<open>
  A ready run whose second column has three values where the job expects two shots, a
  ragged entry, and a ready run of zero shots.
\<close>

definition bad_length_run :: RunResult where
  "bad_length_run =
     \<lparr>run_status = READY,
      measurements = [(''c_2_0_0'', column [1, 0]), (''c_2_0_1'', column [1, 0, 1])]\<rparr>"

definition ragged_entry :: pyval where
  "ragged_entry = PList [PList [PInt 1], PList [PInt 1, PInt 2]]"

definition zero_shot_run :: RunResult where
  "zero_shot_run = \<lparr>run_status = READY, measurements = [(''c_2_0_0'', PList [])]\<rparr>"

definition fresh_job :: Job where
  "fresh_job =
     \<lparr>job_id = ''3fa85f64-5717-4562-b3fc-2c963f66afa6'', metadata_shots = Some 2,
      priv_result = None\<rparr>"

definition constant_client :: "(string \<times> MeasurementKey) list \<Rightarrow> RunResult \<Rightarrow> Env" where
  "constant_client t r =
     \<lparr>mk_from_string = table_parser t, UUID = (\<lambda>s. Inr (length s)),
      wait_for_results = (\<lambda>tr u. Inr r), get_run = (\<lambda>tr u. Inr r)\<rparr>"

section \<open>Shapes of entries\<close>

declare str_nat.simps [simp del]

lemma np_shape_scalar: "np_shape r = Some [] \<longleftrightarrow> (\<exists>i. r = PInt i)"
  by (cases r) (auto split: list.splits option.splits if_splits)

lemma np_shape_PList_all:
  "np_shape (PList xs) = Some (m # d) \<longleftrightarrow>
     (xs = [] \<and> m = 0 \<and> d = []) \<or> (xs \<noteq> [] \<and> m = length xs \<and> (\<forall>x\<in>set xs. np_shape x = Some d))"
  by (cases xs) (auto simp: list_all_iff split: option.splits)

declare np_shape.simps(2) [simp del]

lemma np_shape_row1: "np_shape r = Some [Suc 0] \<longleftrightarrow> (\<exists>i. r = PList [PInt i])"
proof (cases r)
  case (PInt i)
  then show ?thesis by simp
next
  case (PList xs)
  show ?thesis
  proof
    assume "np_shape r = Some [Suc 0]"
    with PList have "xs \<noteq> []" "length xs = Suc 0" "\<forall>x\<in>set xs. np_shape x = Some []"
      by (auto simp: np_shape_PList_all)
    then obtain x where "xs = [x]" "np_shape x = Some []"
      by (cases xs) auto
    with PList show "\<exists>i. r = PList [PInt i]"
      by (auto simp: np_shape_scalar)
  next
    assume "\<exists>i. r = PList [PInt i]"
    then show "np_shape r = Some [Suc 0]" by (auto simp: np_shape_PList_all)
  qed
qed

lemma np_shape_column:
  "np_shape v = Some [n, Suc 0] \<longleftrightarrow>
     0 < n \<and> (\<exists>xs. length xs = n \<and> v = PList (map (\<lambda>x. PList [PInt x]) xs))"
proof (cases v)
  case (PInt i)
  then show ?thesis by simp
next
  case (PList rs)
  show ?thesis
  proof
    assume "np_shape v = Some [n, Suc 0]"
    with PList have rs: "rs \<noteq> []" "n = length rs" "\<forall>r\<in>set rs. np_shape r = Some [Suc 0]"
      by (auto simp: np_shape_PList_all)
    then have "\<forall>r\<in>set rs. \<exists>i. r = PList [PInt i]"
      by (simp add: np_shape_row1)
    then have "rs = map (\<lambda>x. PList [PInt x]) (map (\<lambda>r. hd (np_flat r)) rs)"
      by (induction rs) auto
    with rs PList show "0 < n \<and> (\<exists>xs. length xs = n \<and> v = PList (map (\<lambda>x. PList [PInt x]) xs))"
      by (metis length_greater_0_conv length_map)
  next
    assume "0 < n \<and> (\<exists>xs. length xs = n \<and> v = PList (map (\<lambda>x. PList [PInt x]) xs))"
    then show "np_shape v = Some [n, Suc 0]"
      by (auto simp: np_shape_PList_all)
  qed
qed

lemma column0_column [simp]: "column0 (PList (map (\<lambda>x. PList [PInt x]) xs)) = xs"
  by (simp add: column0_def comp_def)

lemma length_column0: "np_shape v = Some [n, Suc 0] \<Longrightarrow> length (column0 v) = n"
  by (auto simp: np_shape_column)

section \<open>What a successful reassembly implies\<close>

lemma add_measurement_shape:
  assumes "add_measurement p n d kv = Inr d'"
  shows "np_shape (snd kv) = Some [n, Suc 0]"
  using assms
  by (auto simp: add_measurement_def split: sum.splits option.splits if_splits)

lemma group_measurements_shape:
  "group_measurements p n d ms = Inr d' \<Longrightarrow> kv \<in> set ms \<Longrightarrow> np_shape (snd kv) = Some [n, Suc 0]"
proof (induction ms arbitrary: d)
  case Nil
  then show ?case by simp
next
  case (Cons a ms)
  from Cons.prems(1) obtain d1 where
    a: "add_measurement p n d a = Inr d1" and rest: "group_measurements p n d1 ms = Inr d'"
    by (auto split: sum.splits)
  from Cons.prems(2) have "kv = a \<or> kv \<in> set ms" by simp
  then show ?case
  proof
    assume "kv = a"
    with a show ?thesis by (simp add: add_measurement_shape)
  next
    assume "kv \<in> set ms"
    with rest show ?thesis by (rule Cons.IH)
  qed
qed

lemma group_measurements_append:
  "group_measurements p n d (xs @ ys) =
     (case group_measurements p n d xs of Inl e \<Rightarrow> Inl e | Inr d' \<Rightarrow> group_measurements p n d' ys)"
  by (induction xs arbitrary: d) (auto split: sum.splits)

lemma format_iqm_result_Inr:
  assumes "format_iqm_result p md ms = Inr out"
  obtains n d where "get_shots md ms = Inr n" "group_measurements p n [] ms = Inr d"
    "out = map (shot_string d) [0..<n]"
  using assms by (auto simp: format_iqm_result_def split: sum.splits)

lemma get_shots_nonempty: "get_shots md ms = Inr n \<Longrightarrow> ms \<noteq> []"
  by (auto simp: get_shots_def)

lemma format_iqm_result_nonempty:
  assumes "format_iqm_result p md ms = Inr out"
  shows "out \<noteq> []"
proof -
  from assms obtain n d where n: "get_shots md ms = Inr n"
    and g: "group_measurements p n [] ms = Inr d" and out: "out = map (shot_string d) [0..<n]"
    by (rule format_iqm_result_Inr)
  from n obtain kv where "kv \<in> set ms"
    using get_shots_nonempty by (cases ms) auto
  with g have "np_shape (snd kv) = Some [n, Suc 0]"
    by (rule group_measurements_shape)
  then have "0 < n" by (simp add: np_shape_column)
  with out show ?thesis by simp
qed

lemma format_iqm_result_truthy: "format_iqm_result p md ms = Inr out \<Longrightarrow> truthy (Some out)"
  by (simp add: truthy_def format_iqm_result_nonempty)

lemma get_shots_value:
  "get_shots md ((k, PList xs) # rest) = Inr (case md of Some n \<Rightarrow> n | None \<Rightarrow> length xs)"
  by (simp add: get_shots_def)

subsection \<open>The histogram\<close>

lemma map_of_counter_incr:
  "map_of (counter_incr x c) y =
     (if y = x then Some (case map_of c x of None \<Rightarrow> 1 | Some m \<Rightarrow> m + 1) else map_of c y)"
  by (induction c) auto

lemma keys_counter_incr:
  "map fst (counter_incr x c) = (if x \<in> set (map fst c) then map fst c else map fst c @ [x])"
  by (induction c) (force+)

lemma distinct_counter_incr: "distinct (map fst c) \<Longrightarrow> distinct (map fst (counter_incr x c))"
  by (simp add: keys_counter_incr)

lemma foldl_counter_incr:
  "map_of (foldl (\<lambda>c x. counter_incr x c) c xs) y =
     (case map_of c y of
        None \<Rightarrow> if y \<in> set xs then Some (count_list xs y) else None
      | Some m \<Rightarrow> Some (m + count_list xs y))"
proof (induction xs arbitrary: c)
  case Nil
  then show ?case by (simp split: option.splits)
next
  case (Cons x xs)
  show ?case
    by (simp add: Cons.IH map_of_counter_incr split: option.splits)
qed

lemma distinct_foldl_counter_incr:
  "distinct (map fst c) \<Longrightarrow> distinct (map fst (foldl (\<lambda>c x. counter_incr x c) c xs))"
  by (induction xs arbitrary: c) (simp_all add: distinct_counter_incr)

lemma map_of_Counter:
  "map_of (Counter xs) y = (if y \<in> set xs then Some (count_list xs y) else None)"
  by (simp add: Counter_def foldl_counter_incr)

lemma distinct_Counter: "distinct (map fst (Counter xs))"
  by (simp add: Counter_def distinct_foldl_counter_incr)

subsection \<open>Entries and their lengths\<close>

lemma np_shape_py_len: "np_shape v = Some (l # sh) \<Longrightarrow> py_len v = Some l"
  by (cases v) (auto simp: py_len_def np_shape_PList_all)

lemma np_shape_PList_not_scalar: "np_shape (PList xs) \<noteq> Some []"
  by (cases xs) (auto simp: np_shape.simps(2) split: option.splits)

lemma py_len_np_shape: "py_len v = Some l \<Longrightarrow> np_shape v = Some sh \<Longrightarrow> \<exists>d. sh = l # d"
  by (cases v; cases sh) (auto simp: py_len_def np_shape_PList_all np_shape_PList_not_scalar)

lemma group_measurements_py_len:
  assumes "group_measurements p n d ms = Inr d'" and "kv \<in> set ms"
  shows "py_len (snd kv) = Some n"
  using group_measurements_shape [OF assms] by (rule np_shape_py_len)

lemma format_iqm_result_Inl_iff:
  "(\<exists>e. format_iqm_result p md ms = Inl e) \<longleftrightarrow> (\<forall>out. format_iqm_result p md ms \<noteq> Inr out)"
  by (cases "format_iqm_result p md ms") auto

lemma add_measurement_wrong_shape:
  "p k = Inr mk \<Longrightarrow> np_shape v = Some sh \<Longrightarrow> sh \<noteq> [n, Suc 0] \<Longrightarrow>
   add_measurement p n d (k, v) = Inl (ShapeValueError mk sh [n, 1])"
  by (simp add: add_measurement_def)

section \<open>The loop and the register dictionary\<close>

lemma map_fst_store [simp]: "map fst (store d i g) = map fst d"
  by (induction d) (auto simp: store_def)

lemma map_of_store:
  "map_of (store d i g) j = (if j = i \<and> i \<in> set (map fst d) then Some g else map_of d j)"
  by (induction d) (force simp: store_def)+

lemma set_store: "distinct (map fst d) \<Longrightarrow> (j, h) \<in> set (store d i g) \<Longrightarrow>
  (j = i \<and> h = g) \<or> (j \<noteq> i \<and> (j, h) \<in> set d)"
  by (induction d) (auto simp: store_def split: if_splits)

lemma grid_ok_zeros: "grid_ok n (np_zeros n m)"
  by (simp add: grid_ok_def np_zeros_def list_all_iff)

lemma grid_ok_set_column:
  assumes "grid_ok n g" and "length res = n" and "set_column g j res = Inr g'"
  shows "grid_ok n g'" and "ncols g' = ncols g"
    and "s < n \<Longrightarrow> cells g' ! s = (cells g ! s)[j := res ! s]"
  using assms
  by (auto simp: grid_ok_def set_column_def list_all_iff split: if_splits dest!: set_zip_leftD)

text \<open>One pass of the loop body, seen from outside.\<close>

lemma add_measurement_effect:
  assumes ok: "add_measurement p n d kv = Inr d'" and inv: "cregs_ok n d"
  obtains mk g g' where
    "p (fst kv) = Inr mk"
    "np_shape (snd kv) = Some [n, Suc 0]"
    "g = (case map_of d (creg_idx mk) of None \<Rightarrow> np_zeros n (creg_len mk) | Some h \<Rightarrow> h)"
    "grid_ok n g" "grid_ok n g'" "ncols g' = ncols g" "clbit_idx mk < ncols g"
    "\<forall>s<n. cells g' ! s = (cells g ! s)[clbit_idx mk := column0 (snd kv) ! s]"
    "map fst d' = (if creg_idx mk \<in> set (map fst d) then map fst d else map fst d @ [creg_idx mk])"
    "\<forall>j. map_of d' j = (if j = creg_idx mk then Some g' else map_of d j)"
    "cregs_ok n d'"
proof -
  from ok obtain mk where mk: "p (fst kv) = Inr mk"
    by (auto simp: add_measurement_def split: sum.splits)
  from ok have sh: "np_shape (snd kv) = Some [n, Suc 0]"
    by (rule add_measurement_shape)
  then have len: "length (column0 (snd kv)) = n"
    by (rule length_column0)
  let ?i = "creg_idx mk"
  define g where "g = (case map_of d ?i of None \<Rightarrow> np_zeros n (creg_len mk) | Some h \<Rightarrow> h)"
  define d1 where "d1 = (case map_of d ?i of None \<Rightarrow> d @ [(?i, np_zeros n (creg_len mk))] | Some h \<Rightarrow> d)"
  have sd: "setdefault d ?i (np_zeros n (creg_len mk)) = (d1, g)"
    by (simp add: setdefault_def d1_def g_def split: option.splits)
  from ok mk sh sd obtain g' where g': "set_column g (clbit_idx mk) (column0 (snd kv)) = Inr g'"
    and d': "d' = store d1 ?i g'"
    by (auto simp: add_measurement_def split: sum.splits)
  have gok: "grid_ok n g"
  proof (cases "map_of d ?i")
    case None
    then show ?thesis by (simp add: g_def grid_ok_zeros)
  next
    case (Some h)
    then have "(?i, h) \<in> set d" by (rule map_of_SomeD)
    with inv Some show ?thesis
      by (auto simp: g_def cregs_ok_def list_all_iff)
  qed
  note sc = grid_ok_set_column [OF gok len g']
  from g' have lt: "clbit_idx mk < ncols g"
    by (simp add: set_column_def split: if_splits)
  have keys1: "map fst d1 = (if ?i \<in> set (map fst d) then map fst d else map fst d @ [?i])"
    by (auto simp: d1_def map_of_eq_None_iff split: option.splits dest: map_of_SomeD
        intro: rev_image_eqI)
  have in1: "?i \<in> set (map fst d1)"
    by (simp add: keys1)
  have m1: "map_of d1 j = (if j = ?i then Some g else map_of d j)" for j
  proof (cases "map_of d ?i")
    case None
    then show ?thesis
      by (simp add: d1_def g_def map_add_def split: option.splits)
  next
    case (Some h)
    then show ?thesis
      by (simp add: d1_def g_def)
  qed
  have m': "\<forall>j. map_of d' j = (if j = ?i then Some g' else map_of d j)"
    using in1 by (simp add: d' map_of_store m1)
  have dist: "distinct (map fst d1)"
    using inv by (auto simp: keys1 cregs_ok_def)
  have all1: "list_all (\<lambda>ig. grid_ok n (snd ig)) d1"
    using inv by (auto simp: d1_def cregs_ok_def grid_ok_zeros split: option.splits)
  have "list_all (\<lambda>ig. grid_ok n (snd ig)) d'"
    unfolding list_all_iff
  proof
    fix ig assume "ig \<in> set d'"
    then have "(fst ig, snd ig) \<in> set (store d1 ?i g')" by (simp add: d')
    from set_store [OF dist this] all1 sc(1) show "grid_ok n (snd ig)"
      by (auto simp: list_all_iff)
  qed
  with dist have inv': "cregs_ok n d'"
    by (simp add: cregs_ok_def d')
  show ?thesis
    by (rule that [OF mk sh g_def gok sc(1) sc(2) lt _ _ m' inv'])
       (use sc(3) keys1 in \<open>simp_all add: d'\<close>)
qed

subsection \<open>The whole loop\<close>

lemma find_snoc:
  "find P (xs @ [x]) = (case find P xs of None \<Rightarrow> (if P x then Some x else None) | Some y \<Rightarrow> Some y)"
  by (induction xs) auto

lemma register_indices_Cons:
  "p (fst kv) = Inr mk \<Longrightarrow> register_indices p (kv # ms) = creg_idx mk # register_indices p ms"
  by (simp add: register_indices_def)

lemma register_width_Cons:
  "p (fst kv) = Inr mk \<Longrightarrow>
   register_width p (kv # ms) i = (if creg_idx mk = i then creg_len mk else register_width p ms i)"
  by (simp add: register_width_def in_register_def)

lemma writes_bit_Inr:
  "p (fst kv) = Inr mk \<Longrightarrow> writes_bit p i b kv \<longleftrightarrow> creg_idx mk = i \<and> clbit_idx mk = b"
  by (simp add: writes_bit_def)

lemma nth_np_zeros: "s < n \<Longrightarrow> b < m \<Longrightarrow> cells (np_zeros n m) ! s ! b = 0"
  by (simp add: np_zeros_def)

lemma ncols_np_zeros [simp]: "ncols (np_zeros n m) = m"
  by (simp add: np_zeros_def)

lemma grid_ok_row: "grid_ok n g \<Longrightarrow> s < n \<Longrightarrow> length (cells g ! s) = ncols g"
  by (simp add: grid_ok_def list_all_length)

lemma group_measurements_effect:
  assumes "group_measurements p n d ms = Inr d'" and "cregs_ok n d"
  shows "cregs_ok n d'
    \<and> set (map fst d') = set (map fst d) \<union> set (register_indices p ms)
    \<and> (\<forall>i g'. map_of d' i = Some g' \<longrightarrow>
          ncols g' = (case map_of d i of None \<Rightarrow> register_width p ms i | Some g \<Rightarrow> ncols g)
          \<and> (\<forall>s b. s < n \<and> b < ncols g' \<longrightarrow>
                cells g' ! s ! b =
                  (case find (writes_bit p i b) (rev ms) of
                     None \<Rightarrow> creg_cell d i s b
                   | Some kv \<Rightarrow> column0 (snd kv) ! s)))"
  using assms
proof (induction ms arbitrary: d)
  case Nil
  then show ?case
    by (auto simp: register_indices_def register_width_def creg_cell_def)
next
  case (Cons kv rest)
  from Cons.prems(1) obtain d1 where
    add: "add_measurement p n d kv = Inr d1" and grp: "group_measurements p n d1 rest = Inr d'"
    by (auto split: sum.splits)
  from add Cons.prems(2) obtain mk g0 g1 where
    mk: "p (fst kv) = Inr mk"
    and g0: "g0 = (case map_of d (creg_idx mk) of None \<Rightarrow> np_zeros n (creg_len mk) | Some h \<Rightarrow> h)"
    and ok0: "grid_ok n g0" and nc1: "ncols g1 = ncols g0" and lt: "clbit_idx mk < ncols g0"
    and c1: "\<forall>s<n. cells g1 ! s = (cells g0 ! s)[clbit_idx mk := column0 (snd kv) ! s]"
    and keys1: "map fst d1 = (if creg_idx mk \<in> set (map fst d) then map fst d else map fst d @ [creg_idx mk])"
    and m1: "\<forall>j. map_of d1 j = (if j = creg_idx mk then Some g1 else map_of d j)"
    and inv1: "cregs_ok n d1"
    by (rule add_measurement_effect)
  note IH = Cons.IH [OF grp inv1]
  let ?i0 = "creg_idx mk" and ?b0 = "clbit_idx mk"
  have inv': "cregs_ok n d'" using IH by simp
  have keys': "set (map fst d') = set (map fst d) \<union> set (register_indices p (kv # rest))"
  proof -
    from IH have "set (map fst d') = set (map fst d1) \<union> set (register_indices p rest)" by simp
    also have "set (map fst d1) = insert ?i0 (set (map fst d))"
      by (auto simp: keys1)
    finally show ?thesis
      by (simp add: register_indices_Cons [where p = p and kv = kv, OF mk])
  qed
  have cells': "ncols g' = (case map_of d i of None \<Rightarrow> register_width p (kv # rest) i | Some g \<Rightarrow> ncols g)
      \<and> (\<forall>s b. s < n \<and> b < ncols g' \<longrightarrow>
            cells g' ! s ! b =
              (case find (writes_bit p i b) (rev (kv # rest)) of
                 None \<Rightarrow> creg_cell d i s b
               | Some e \<Rightarrow> column0 (snd e) ! s))"
    if look: "map_of d' i = Some g'" for i g'
  proof -
    from IH look have w1: "ncols g' = (case map_of d1 i of None \<Rightarrow> register_width p rest i | Some g \<Rightarrow> ncols g)"
      and v1: "\<And>s b. s < n \<Longrightarrow> b < ncols g' \<Longrightarrow>
            cells g' ! s ! b =
              (case find (writes_bit p i b) (rev rest) of
                 None \<Rightarrow> creg_cell d1 i s b
               | Some e \<Rightarrow> column0 (snd e) ! s)"
      by auto
    have width: "ncols g' = (case map_of d i of None \<Rightarrow> register_width p (kv # rest) i | Some g \<Rightarrow> ncols g)"
    proof (cases "i = ?i0")
      case True
      with w1 m1 have "ncols g' = ncols g0" by (simp add: nc1)
      with True show ?thesis
        by (simp add: g0 register_width_Cons [where p = p and kv = kv, OF mk] split: option.splits)
    next
      case False
      then have "register_width p (kv # rest) i = register_width p rest i"
        by (auto simp: register_width_Cons [where p = p and kv = kv, OF mk])
      with False w1 m1 show ?thesis
        by (simp split: option.splits)
    qed
    have step: "creg_cell d1 i s b =
        (if ?i0 = i \<and> ?b0 = b then column0 (snd kv) ! s else creg_cell d i s b)"
      if s: "s < n" and b: "b < ncols g'" for s b
    proof (cases "i = ?i0")
      case True
      with w1 m1 have nc: "ncols g' = ncols g0" by (simp add: nc1)
      have len: "length (cells g0 ! s) = ncols g0"
        using ok0 s by (rule grid_ok_row)
      have old: "cells g0 ! s ! b = creg_cell d i s b"
        using True s b nc by (simp add: g0 creg_cell_def nth_np_zeros split: option.splits)
      from True m1 have "creg_cell d1 i s b = cells g1 ! s ! b"
        by (simp add: creg_cell_def)
      also from c1 s have "\<dots> = (cells g0 ! s)[?b0 := column0 (snd kv) ! s] ! b" by simp
      also have "\<dots> = (if ?b0 = b then column0 (snd kv) ! s else cells g0 ! s ! b)"
        using lt len b nc by (simp add: nth_list_update)
      finally show ?thesis using True old by simp
    next
      case False
      with m1 show ?thesis by (simp add: creg_cell_def)
    qed
    have "cells g' ! s ! b =
              (case find (writes_bit p i b) (rev (kv # rest)) of
                 None \<Rightarrow> creg_cell d i s b
               | Some e \<Rightarrow> column0 (snd e) ! s)"
      if s: "s < n" and b: "b < ncols g'" for s b
      using v1 [OF s b] step [OF s b]
      by (simp add: find_snoc writes_bit_Inr [where p = p and kv = kv, OF mk] split: option.splits)
    with width show ?thesis by blast
  qed
  from inv' keys' cells' show ?case by blast
qed

section \<open>The reassembly computes what the specification words\<close>

lemma cregs_ok_Nil: "cregs_ok n []"
  by (simp add: cregs_ok_def)

lemma creg_cell_Nil [simp]: "creg_cell [] i s b = 0"
  by (simp add: creg_cell_def)

lemma map_fst_sorted_reverse:
  assumes "distinct (map fst d)" and "set (map fst d) = set xs"
  shows "map fst (sorted_reverse d) = rev (sort (remdups xs))"
proof -
  have "distinct (map fst (sort_key fst d))"
    using assms(1) by (simp add: distinct_map)
  moreover have "sorted (map fst (sort_key fst d))" by simp
  moreover have "set (map fst (sort_key fst d)) = set (sort (remdups xs))"
    using assms(2) by simp
  ultimately have "map fst (sort_key fst d) = sort (remdups xs)"
    by (intro sorted_distinct_set_unique) simp_all
  then show ?thesis
    by (simp add: sorted_reverse_def rev_map [symmetric])
qed

lemma set_sorted_reverse [simp]: "set (sorted_reverse d) = set d"
  by (simp add: sorted_reverse_def)

lemma format_iqm_result_refines:
  assumes "format_iqm_result p md ms = Inr out"
  shows "\<exists>n. get_shots md ms = Inr n \<and> 0 < n \<and> out = map (spec_shot_string p ms) [0..<n]
    \<and> (\<forall>kv\<in>set ms. np_shape (snd kv) = Some [n, Suc 0])"
proof -
  from assms obtain n d where n: "get_shots md ms = Inr n"
    and grp: "group_measurements p n [] ms = Inr d" and out: "out = map (shot_string d) [0..<n]"
    by (rule format_iqm_result_Inr)
  from assms have "out \<noteq> []" by (rule format_iqm_result_nonempty)
  with out have pos: "0 < n" by simp
  note eff = group_measurements_effect [OF grp cregs_ok_Nil]
  from eff have dist: "distinct (map fst d)" and grids: "\<forall>ig\<in>set d. grid_ok n (snd ig)"
    by (simp_all add: cregs_ok_def list_all_iff)
  from eff have keys: "set (map fst d) = set (register_indices p ms)" by simp
  have row: "cells g ! s = map (\<lambda>b. bit_value p ms i b s) [0..<register_width p ms i]"
    if mem: "(i, g) \<in> set d" and s: "s < n" for i g s
  proof -
    from dist mem have look: "map_of d i = Some g" by simp
    with eff have w: "ncols g = register_width p ms i" by simp
    from grids mem have "grid_ok n g" by auto
    then have len: "length (cells g ! s) = register_width p ms i"
      using s w by (simp add: grid_ok_row)
    have "cells g ! s ! b = bit_value p ms i b s" if "b < register_width p ms i" for b
      using eff look s that w by (simp add: bit_value_def split: option.splits)
    with len show ?thesis
      by (intro nth_equalityI) simp_all
  qed
  have "shot_string d s = spec_shot_string p ms s" if s: "s < n" for s
  proof -
    have "map (\<lambda>(i, res). concat (map str_int (rev (cells res ! s)))) (sorted_reverse d)
        = map (\<lambda>ig. spec_register_string p ms s (fst ig)) (sorted_reverse d)"
      by (rule map_cong) (auto simp: row [OF _ s] spec_register_string_def rev_map comp_def)
    also have "\<dots> = map (spec_register_string p ms s) (map fst (sorted_reverse d))"
      by simp
    also have "map fst (sorted_reverse d) = registers_desc p ms"
      unfolding registers_desc_def using dist keys by (rule map_fst_sorted_reverse)
    finally show ?thesis
      by (simp add: shot_string_def spec_shot_string_def)
  qed
  with out have "out = map (spec_shot_string p ms) [0..<n]" by simp
  moreover from grp have "\<forall>kv\<in>set ms. np_shape (snd kv) = Some [n, Suc 0]"
    by (blast intro: group_measurements_shape)
  ultimately show ?thesis using n pos by blast
qed


subsection \<open>Maps on which the reassembly returns\<close>

text \<open>
  The reassembly returns, and returns the specification's list, on every map whose
  entries are columns of \<open>shots\<close> one-element rows and whose keys parse and name a bit
  inside the register, as wide as the first key of the register says.
\<close>

lemma add_measurement_succeeds:
  assumes "p (fst kv) = Inr mk" and "np_shape (snd kv) = Some [n, Suc 0]"
    and "clbit_idx mk < (case map_of d (creg_idx mk) of None \<Rightarrow> creg_len mk | Some g \<Rightarrow> ncols g)"
  shows "\<exists>d'. add_measurement p n d kv = Inr d'"
  using assms
  by (auto simp: add_measurement_def setdefault_def set_column_def split: option.splits)

lemma group_measurements_succeeds:
  assumes "cregs_ok n d"
    and "\<forall>kv\<in>set ms. np_shape (snd kv) = Some [n, Suc 0]"
    and "\<forall>kv\<in>set ms. \<exists>mk. p (fst kv) = Inr mk
          \<and> clbit_idx mk < (case map_of d (creg_idx mk) of
                               None \<Rightarrow> register_width p ms (creg_idx mk)
                             | Some g \<Rightarrow> ncols g)"
  shows "\<exists>d'. group_measurements p n d ms = Inr d'"
  using assms
proof (induction ms arbitrary: d)
  case Nil
  then show ?case by simp
next
  case (Cons kv rest)
  from Cons.prems(3) obtain mk where mk: "p (fst kv) = Inr mk"
    and lt: "clbit_idx mk < (case map_of d (creg_idx mk) of
                               None \<Rightarrow> register_width p (kv # rest) (creg_idx mk)
                             | Some g \<Rightarrow> ncols g)"
    by auto
  have w0: "register_width p (kv # rest) (creg_idx mk) = creg_len mk"
    by (simp add: register_width_Cons [where p = p and kv = kv, OF mk])
  from Cons.prems(2) have sh: "np_shape (snd kv) = Some [n, Suc 0]" by simp
  from lt have "clbit_idx mk < (case map_of d (creg_idx mk) of None \<Rightarrow> creg_len mk | Some g \<Rightarrow> ncols g)"
    by (simp add: w0 split: option.splits)
  with mk sh obtain d1 where add: "add_measurement p n d kv = Inr d1"
    using add_measurement_succeeds by blast
  from add Cons.prems(1) obtain mk' g0 g1 where
    mk': "p (fst kv) = Inr mk'"
    and g0: "g0 = (case map_of d (creg_idx mk') of None \<Rightarrow> np_zeros n (creg_len mk') | Some h \<Rightarrow> h)"
    and nc1: "ncols g1 = ncols g0"
    and m1: "\<forall>j. map_of d1 j = (if j = creg_idx mk' then Some g1 else map_of d j)"
    and inv1: "cregs_ok n d1"
    by (rule add_measurement_effect)
  from mk mk' have same: "mk' = mk" by simp
  have "\<forall>e\<in>set rest. \<exists>k. p (fst e) = Inr k
          \<and> clbit_idx k < (case map_of d1 (creg_idx k) of
                               None \<Rightarrow> register_width p rest (creg_idx k)
                             | Some g \<Rightarrow> ncols g)"
  proof
    fix e assume e: "e \<in> set rest"
    with Cons.prems(3) obtain k where k: "p (fst e) = Inr k"
      and lk: "clbit_idx k < (case map_of d (creg_idx k) of
                               None \<Rightarrow> register_width p (kv # rest) (creg_idx k)
                             | Some g \<Rightarrow> ncols g)"
      by auto
    have "clbit_idx k < (case map_of d1 (creg_idx k) of
                               None \<Rightarrow> register_width p rest (creg_idx k)
                             | Some g \<Rightarrow> ncols g)"
    proof (cases "creg_idx k = creg_idx mk")
      case True
      with lk have "clbit_idx k < ncols g0"
        by (simp add: g0 same w0 split: option.splits)
      with True m1 show ?thesis by (simp add: same nc1)
    next
      case False
      then have "register_width p (kv # rest) (creg_idx k) = register_width p rest (creg_idx k)"
        by (auto simp: register_width_Cons [where p = p and kv = kv, OF mk])
      with False lk m1 show ?thesis
        by (simp add: same split: option.splits)
    qed
    with k show "\<exists>k. p (fst e) = Inr k
          \<and> clbit_idx k < (case map_of d1 (creg_idx k) of
                               None \<Rightarrow> register_width p rest (creg_idx k)
                             | Some g \<Rightarrow> ncols g)"
      by blast
  qed
  with Cons.IH [OF inv1] Cons.prems(2) obtain d' where "group_measurements p n d1 rest = Inr d'"
    by auto
  with add show ?case by simp
qed

lemma format_iqm_result_succeeds:
  assumes "get_shots md ms = Inr n"
    and "\<forall>kv\<in>set ms. np_shape (snd kv) = Some [n, Suc 0]"
    and "\<forall>kv\<in>set ms. \<exists>mk. p (fst kv) = Inr mk
          \<and> clbit_idx mk < register_width p ms (creg_idx mk)"
  shows "format_iqm_result p md ms = Inr (map (spec_shot_string p ms) [0..<n])"
proof -
  from assms(3) have "\<forall>kv\<in>set ms. \<exists>mk. p (fst kv) = Inr mk
          \<and> clbit_idx mk < (case map_of [] (creg_idx mk) of
                               None \<Rightarrow> register_width p ms (creg_idx mk)
                             | Some g \<Rightarrow> ncols g)"
    by simp
  with group_measurements_succeeds [OF cregs_ok_Nil assms(2)]
  obtain d where "group_measurements p n [] ms = Inr d" by blast
  with assms(1) obtain out where out: "format_iqm_result p md ms = Inr out"
    by (simp add: format_iqm_result_def)
  from format_iqm_result_refines [OF out] assms(1) out show ?thesis by auto
qed

subsection \<open>Bits and their characters\<close>

lemma str_int_bit: "str_int 0 = ''0''" "str_int 1 = ''1''"
  by (simp_all add: str_int_def str_nat.simps)

lemma find_SomeD: "find P xs = Some x \<Longrightarrow> x \<in> set xs \<and> P x"
  by (auto simp: find_Some_iff)

lemma bit_value_unwritten:
  "\<forall>kv\<in>set ms. \<not> writes_bit p i b kv \<Longrightarrow> bit_value p ms i b s = 0"
  by (simp add: bit_value_def find_None_iff [THEN iffD2])

lemma bit_value_cases:
  obtains "\<forall>kv\<in>set ms. \<not> writes_bit p i b kv" "bit_value p ms i b s = 0"
  | kv where "kv \<in> set ms" "writes_bit p i b kv" "bit_value p ms i b s = column0 (snd kv) ! s"
proof (cases "find (writes_bit p i b) (rev ms)")
  case None
  then have "\<forall>kv\<in>set ms. \<not> writes_bit p i b kv"
    by (auto simp: find_None_iff)
  with that(1) show ?thesis
    by (simp add: bit_value_unwritten)
next
  case (Some kv)
  then have "kv \<in> set ms" "writes_bit p i b kv"
    by (auto dest: find_SomeD)
  with Some that(2) show ?thesis
    by (simp add: bit_value_def)
qed

lemma np_flat_column [simp]: "np_flat (PList (map (\<lambda>x. PList [PInt x]) xs)) = xs"
  by (induction xs) auto

lemma column0_in_np_flat:
  assumes "np_shape v = Some [m, Suc 0]" and "s < m"
  shows "column0 v ! s \<in> set (np_flat v)"
proof -
  from assms(1) obtain xs where "length xs = m" "v = PList (map (\<lambda>x. PList [PInt x]) xs)"
    by (auto simp: np_shape_column)
  with assms(2) show ?thesis by simp
qed

lemma registers_desc_single:
  assumes "ms \<noteq> []" and "\<forall>kv\<in>set ms. \<exists>mk. p (fst kv) = Inr mk \<and> creg_idx mk = i"
  shows "registers_desc p ms = [i]"
proof -
  have "set (register_indices p ms) = {i}"
    using assms by (cases ms) (fastforce simp: register_indices_def)+
  then have "set (sort (remdups (register_indices p ms))) = set [i]" by simp
  moreover have "sorted (sort (remdups (register_indices p ms)))"
    "distinct (sort (remdups (register_indices p ms)))"
    by simp_all
  ultimately have "sort (remdups (register_indices p ms)) = [i]"
    by (intro sorted_distinct_set_unique) simp_all
  then show ?thesis by (simp add: registers_desc_def)
qed

lemma register_width_single:
  assumes "ms \<noteq> []" and "\<forall>kv\<in>set ms. \<exists>mk. p (fst kv) = Inr mk \<and> creg_idx mk = i \<and> creg_len mk = n"
  shows "register_width p ms i = n"
  using assms by (cases ms) (auto simp: register_width_def in_register_def)

section \<open>What the job's operations do\<close>

lemma result_Inr:
  assumes "result env today (tr, j) = (st', Inr r)"
  obtains (cached) mem where "priv_result j = Some mem" "mem \<noteq> []" "st' = (tr, j)"
      "r = result_dict (job_id j) mem today"
  | (fetched) u run mem where "\<not> truthy (priv_result j)" "UUID env (job_id j) = Inr u"
      "wait_for_results env tr u = Inr run"
      "format_iqm_result (mk_from_string env) (metadata_shots j) (measurements run) = Inr mem"
      "st' = (tr @ [WaitForResults u, FormatIqmResult], j\<lparr>priv_result := Some mem\<rparr>)"
      "r = result_dict (job_id j) mem today"
proof (cases "truthy (priv_result j)")
  case True
  then obtain mem where "priv_result j = Some mem" "mem \<noteq> []"
    by (auto simp: truthy_def split: option.splits)
  with True assms cached show ?thesis
    by (auto simp: result_def)
next
  case False
  with assms fetched show ?thesis
    by (auto simp: result_def Let_def split: sum.splits)
qed

lemma result_cached:
  "priv_result j = Some mem \<Longrightarrow> mem \<noteq> [] \<Longrightarrow>
   result env today (tr, j) = ((tr, j), Inr (result_dict (job_id j) mem today))"
  by (simp add: result_def truthy_def)

lemma status_cached:
  "priv_result j = Some mem \<Longrightarrow> mem \<noteq> [] \<Longrightarrow> status env (tr, j) = ((tr, j), Inr DONE)"
  by (simp add: status_def truthy_def)

lemma status_DONE:
  assumes "status env (tr, j) = (st', Inr DONE)"
  obtains mem where "priv_result (snd st') = Some mem" "mem \<noteq> []"
proof (cases "truthy (priv_result j)")
  case True
  with assms have "st' = (tr, j)" by (simp add: status_def)
  with True that show ?thesis
    by (auto simp: truthy_def split: option.splits)
next
  case False
  with assms have "\<exists>mem. priv_result (snd st') = Some mem \<and> mem \<noteq> []"
    by (auto simp: status_def split: sum.splits if_splits dest: format_iqm_result_nonempty)
  with that show ?thesis by blast
qed

subsection \<open>The concrete inputs, evaluated\<close>

lemma format_one_bit_run:
  "format_iqm_result (table_parser two_registers) (Some 2) (measurements one_bit_run)
     = Inr [''01'', ''00'']"
  by code_simp

lemma constant_client_simps:
  "mk_from_string (constant_client t r) = table_parser t"
  "UUID (constant_client t r) s = Inr (length s)"
  "wait_for_results (constant_client t r) tr u = Inr r"
  "get_run (constant_client t r) tr u = Inr r"
  by (simp_all add: constant_client_def)

lemma fresh_job_simps:
  "job_id fresh_job = ''3fa85f64-5717-4562-b3fc-2c963f66afa6''"
  "metadata_shots fresh_job = Some 2"
  "priv_result fresh_job = None"
  by (simp_all add: fresh_job_def)

lemma status_fresh_job:
  "status (constant_client two_registers one_bit_run) ([], fresh_job)
     = (([GetRun 36, FormatIqmResult], fresh_job\<lparr>priv_result := Some [''01'', ''00'']\<rparr>), Inr DONE)"
  by (simp add: status_def truthy_def constant_client_simps fresh_job_simps format_one_bit_run
      one_bit_run_def [THEN arg_cong [of _ _ run_status]])

lemma result_fresh_job:
  "result (constant_client two_registers one_bit_run) today ([], fresh_job)
     = (([WaitForResults 36, FormatIqmResult], fresh_job\<lparr>priv_result := Some [''01'', ''00'']\<rparr>),
        Inr (result_dict (job_id fresh_job) [''01'', ''00''] today))"
  by (simp add: result_def truthy_def constant_client_simps fresh_job_simps format_one_bit_run)

subsection \<open>Reassemblies that fail, and what the cache can hold\<close>

lemma result_reassembly_fails:
  assumes "\<not> truthy (priv_result j)" and "UUID env (job_id j) = Inr u"
    and "wait_for_results env tr u = Inr run"
    and "format_iqm_result (mk_from_string env) (metadata_shots j) (measurements run) = Inl e"
  shows "result env today (tr, j) = ((tr @ [WaitForResults u, FormatIqmResult], j), Inl e)"
  using assms by (simp add: result_def)

lemma status_reassembly_fails:
  assumes "\<not> truthy (priv_result j)" and "UUID env (job_id j) = Inr u"
    and "get_run env tr u = Inr run" and "run_status run = READY"
    and "format_iqm_result (mk_from_string env) (metadata_shots j) (measurements run) = Inl e"
  shows "status env (tr, j) = ((tr @ [GetRun u, FormatIqmResult], j), Inl e)"
  using assms by (simp add: status_def)

lemma wrong_length_fails:
  assumes "get_shots md ms = Inr n" and "\<exists>kv\<in>set ms. py_len (snd kv) \<noteq> Some n"
  shows "\<exists>e. format_iqm_result p md ms = Inl e"
proof -
  have "format_iqm_result p md ms \<noteq> Inr out" for out
  proof
    assume "format_iqm_result p md ms = Inr out"
    then obtain n' d where "get_shots md ms = Inr n'" "group_measurements p n' [] ms = Inr d"
      by (rule format_iqm_result_Inr)
    with assms(1) have "group_measurements p n [] ms = Inr d" by simp
    then have "\<forall>kv\<in>set ms. py_len (snd kv) = Some n"
      by (blast intro: group_measurements_py_len)
    with assms(2) show False by blast
  qed
  then show ?thesis
    by (simp add: format_iqm_result_Inl_iff)
qed

lemma bad_length_run_simps:
  "run_status bad_length_run = READY"
  "measurements bad_length_run = [(''c_2_0_0'', column [1, 0]), (''c_2_0_1'', column [1, 0, 1])]"
  by (simp_all add: bad_length_run_def)

lemma zero_shot_run_simps:
  "run_status zero_shot_run = READY"
  "measurements zero_shot_run = [(''c_2_0_0'', PList [])]"
  by (simp_all add: zero_shot_run_def)





section \<open>Ordering and zero fill\<close>



text \<open>
  C3. In the string of every shot, a bit position that no entry of the raw map writes
  is the character \<open>0\<close>. For a map with one register of width \<open>n\<close> whose keys
  name only the bits 0 and 2 and whose values are bits, every per-shot string has
  \<open>n\<close> characters and the character of each bit other than 0 and 2 (counted from the
  right) is \<open>0\<close>.
\<close>

theorem zero_fill:
  assumes "format_iqm_result p md ms = Inr out" and "s < length out"
  shows "out ! s =
      join_space (map (\<lambda>i. concat (map (\<lambda>b. if (\<exists>kv\<in>set ms. writes_bit p i b kv)
                                             then str_int (bit_value p ms i b s) else ''0'')
                                       (rev [0..<register_width p ms i])))
                      (registers_desc p ms))
    \<and> ((\<forall>kv\<in>set ms. \<exists>mk. p (fst kv) = Inr mk \<and> creg_idx mk = i \<and> creg_len mk = n
                          \<and> (clbit_idx mk = 0 \<or> clbit_idx mk = 2))
        \<and> (\<forall>kv\<in>set ms. set (np_flat (snd kv)) \<subseteq> {0, 1})
        \<longrightarrow> length (out ! s) = n
            \<and> (\<forall>b<n. b \<noteq> 0 \<and> b \<noteq> 2 \<longrightarrow> out ! s ! (n - 1 - b) = CHR ''0''))"
proof (intro conjI impI)
  from format_iqm_result_refines [OF assms(1)] obtain m where
    m: "get_shots md ms = Inr m" and out: "out = map (spec_shot_string p ms) [0..<m]"
    and shapes: "\<forall>kv\<in>set ms. np_shape (snd kv) = Some [m, Suc 0]"
    by blast
  from out assms(2) have s: "s < m" by simp
  with out have outs: "out ! s = spec_shot_string p ms s" by simp
  have "spec_register_string p ms s j =
      concat (map (\<lambda>b. if (\<exists>kv\<in>set ms. writes_bit p j b kv)
                        then str_int (bit_value p ms j b s) else ''0'')
                  (rev [0..<register_width p ms j]))" for j
    unfolding spec_register_string_def
    by (rule arg_cong [where f = concat], rule map_cong)
       (simp_all add: bit_value_unwritten str_int_bit)
  then have "spec_register_string p ms s =
      (\<lambda>j. concat (map (\<lambda>b. if (\<exists>kv\<in>set ms. writes_bit p j b kv)
                              then str_int (bit_value p ms j b s) else ''0'')
                        (rev [0..<register_width p ms j])))"
    by (rule ext)
  with outs show "out ! s =
      join_space (map (\<lambda>i. concat (map (\<lambda>b. if (\<exists>kv\<in>set ms. writes_bit p i b kv)
                                             then str_int (bit_value p ms i b s) else ''0'')
                                       (rev [0..<register_width p ms i])))
                      (registers_desc p ms))"
    by (simp add: spec_shot_string_def)
  assume H: "(\<forall>kv\<in>set ms. \<exists>mk. p (fst kv) = Inr mk \<and> creg_idx mk = i \<and> creg_len mk = n
                          \<and> (clbit_idx mk = 0 \<or> clbit_idx mk = 2))
        \<and> (\<forall>kv\<in>set ms. set (np_flat (snd kv)) \<subseteq> {0, 1})"
  from m have ne: "ms \<noteq> []" by (rule get_shots_nonempty)
  from H have regs: "registers_desc p ms = [i]"
    by (intro registers_desc_single [OF ne]) blast
  from H have width: "register_width p ms i = n"
    by (intro register_width_single [OF ne]) blast
  define c where "c b = (if bit_value p ms i b s = 1 then CHR ''1'' else CHR ''0'')" for b
  have bits: "str_int (bit_value p ms i b s) = [c b]" for b
  proof (cases rule: bit_value_cases [of ms p i b s])
    case 1
    then show ?thesis by (simp add: c_def str_int_bit)
  next
    case (2 kv)
    with shapes s have "column0 (snd kv) ! s \<in> set (np_flat (snd kv))"
      by (blast intro: column0_in_np_flat)
    with H 2 have "bit_value p ms i b s = 0 \<or> bit_value p ms i b s = 1"
      by auto
    then show ?thesis by (auto simp: c_def str_int_bit)
  qed
  have row: "out ! s = map c (rev [0..<n])"
    by (simp add: outs spec_shot_string_def regs spec_register_string_def width bits
        concat_map_singleton)
  then show "length (out ! s) = n" by simp
  show "\<forall>b<n. b \<noteq> 0 \<and> b \<noteq> 2 \<longrightarrow> out ! s ! (n - 1 - b) = CHR ''0''"
  proof (intro allI impI)
    fix b assume b: "b < n" and nb: "b \<noteq> 0 \<and> b \<noteq> 2"
    have "\<forall>kv\<in>set ms. \<not> writes_bit p i b kv"
      using H nb by (fastforce simp: writes_bit_def)
    then have zero: "c b = CHR ''0''"
      by (simp add: c_def bit_value_unwritten)
    from b have "rev [0..<n] ! (n - 1 - b) = b"
      by (simp add: rev_nth)
    with b row zero show "out ! s ! (n - 1 - b) = CHR ''0''"
      by simp
  qed
qed

theorem zero_fill_witness:
  "format_iqm_result (table_parser four_bit_register) None zero_fill_example
     = Inr [''0101'', ''0100'']
   \<and> length ([''0101'', ''0100''] ! 1) = 4
   \<and> [''0101'', ''0100''] ! 1 ! (4 - 1 - 1) = CHR ''0''
   \<and> [''0101'', ''0100''] ! 1 ! (4 - 1 - 3) = CHR ''0''"
proof -
  have h: "format_iqm_result (table_parser four_bit_register) None zero_fill_example
     = Inr [''0101'', ''0100'']"
    by code_simp
  have s: "1 < length [''0101'', ''0100'']" by simp
  have k: "\<forall>kv\<in>set zero_fill_example. \<exists>mk. table_parser four_bit_register (fst kv) = Inr mk
      \<and> creg_idx mk = 0 \<and> creg_len mk = 4 \<and> (clbit_idx mk = 0 \<or> clbit_idx mk = 2)"
    by (simp add: zero_fill_example_def table_parser_def four_bit_register_def)
  have v: "\<forall>kv\<in>set zero_fill_example. set (np_flat (snd kv)) \<subseteq> {0, 1}"
    by (simp add: zero_fill_example_def column_def)
  from zero_fill [OF h s, where i = 0 and n = 4] k v
  have "length ([''0101'', ''0100''] ! 1) = 4
    \<and> (\<forall>b<4. b \<noteq> 0 \<and> b \<noteq> 2 \<longrightarrow> [''0101'', ''0100''] ! 1 ! (4 - 1 - b) = CHR ''0'')"
    by blast
  then have "length ([''0101'', ''0100''] ! 1) = 4
    \<and> [''0101'', ''0100''] ! 1 ! (4 - 1 - 1) = CHR ''0''
    \<and> [''0101'', ''0100''] ! 1 ! (4 - 1 - 3) = CHR ''0''"
    by auto
  with h show ?thesis by blast
qed

section \<open>Shape validation\<close>

text \<open>
  C2, as amended. Let \<open>n\<close> be the expected shot count. A raw map with an entry whose
  length is not \<open>n\<close> makes the reassembly fail, and \<^verbatim>\<open>result()\<close> and
  \<^verbatim>\<open>status()\<close>, when they reassemble that map, raise the same error and store
  nothing: no list of bitstrings is returned, partial or not. The error is that of the
  first entry the loop rejects: when the entries before the offending one were accepted,
  its key parses and it converts to an array, it is the shape mismatch carrying the
  parsed key, the actual shape (which starts with the actual length) and the expected
  shape \<open>(n, 1)\<close>.
\<close>

theorem shape_validation:
  assumes "get_shots md ms = Inr n"
  shows "((\<exists>kv\<in>set ms. py_len (snd kv) \<noteq> Some n) \<longrightarrow>
           (\<exists>e. format_iqm_result p md ms = Inl e
              \<and> (\<forall>env j tr u run today.
                    mk_from_string env = p \<and> metadata_shots j = md \<and> measurements run = ms
                    \<and> \<not> truthy (priv_result j) \<and> UUID env (job_id j) = Inr u
                    \<longrightarrow> (wait_for_results env tr u = Inr run \<longrightarrow>
                           result env today (tr, j)
                             = ((tr @ [WaitForResults u, FormatIqmResult], j), Inl e))
                       \<and> (get_run env tr u = Inr run \<and> run_status run = READY \<longrightarrow>
                           status env (tr, j)
                             = ((tr @ [GetRun u, FormatIqmResult], j), Inl e)))))
    \<and> (\<forall>pre k v post d mk sh l.
          ms = pre @ (k, v) # post \<and> group_measurements p n [] pre = Inr d \<and> p k = Inr mk
          \<and> np_shape v = Some sh \<and> py_len v = Some l \<and> l \<noteq> n
          \<longrightarrow> hd sh = l \<and> format_iqm_result p md ms = Inl (ShapeValueError mk sh [n, 1]))"
proof (intro conjI impI allI)
  assume bad: "\<exists>kv\<in>set ms. py_len (snd kv) \<noteq> Some n"
  with assms obtain e where e: "format_iqm_result p md ms = Inl e"
    using wrong_length_fails by blast
  have "(wait_for_results env tr u = Inr run \<longrightarrow>
           result env today (tr, j) = ((tr @ [WaitForResults u, FormatIqmResult], j), Inl e))
      \<and> (get_run env tr u = Inr run \<and> run_status run = READY \<longrightarrow>
           status env (tr, j) = ((tr @ [GetRun u, FormatIqmResult], j), Inl e))"
    if "mk_from_string env = p \<and> metadata_shots j = md \<and> measurements run = ms
        \<and> \<not> truthy (priv_result j) \<and> UUID env (job_id j) = Inr u"
    for env j tr u run today
    using that e by (auto intro: result_reassembly_fails status_reassembly_fails)
  with e show "\<exists>e. format_iqm_result p md ms = Inl e
              \<and> (\<forall>env j tr u run today.
                    mk_from_string env = p \<and> metadata_shots j = md \<and> measurements run = ms
                    \<and> \<not> truthy (priv_result j) \<and> UUID env (job_id j) = Inr u
                    \<longrightarrow> (wait_for_results env tr u = Inr run \<longrightarrow>
                           result env today (tr, j)
                             = ((tr @ [WaitForResults u, FormatIqmResult], j), Inl e))
                       \<and> (get_run env tr u = Inr run \<and> run_status run = READY \<longrightarrow>
                           status env (tr, j)
                             = ((tr @ [GetRun u, FormatIqmResult], j), Inl e)))"
    by blast
next
  fix pre k v post d mk sh l
  assume h: "ms = pre @ (k, v) # post \<and> group_measurements p n [] pre = Inr d \<and> p k = Inr mk
          \<and> np_shape v = Some sh \<and> py_len v = Some l \<and> l \<noteq> n"
  then obtain r where sh: "sh = l # r"
    using py_len_np_shape by blast
  then show "hd sh = l" by simp
  from sh h have "sh \<noteq> [n, Suc 0]" by auto
  with h have "add_measurement p n d (k, v) = Inl (ShapeValueError mk sh [n, 1])"
    by (simp add: add_measurement_wrong_shape)
  with h assms show "format_iqm_result p md ms = Inl (ShapeValueError mk sh [n, 1])"
    by (simp add: format_iqm_result_def group_measurements_append)
qed

theorem shape_validation_witness:
  "format_iqm_result (table_parser two_registers) (Some 2) (measurements bad_length_run)
     = Inl (ShapeValueError \<lparr>creg_len = 2, creg_idx = 0, clbit_idx = 1\<rparr> [3, 1] [2, 1])
   \<and> result (constant_client two_registers bad_length_run) 738097 ([], fresh_job)
     = (([WaitForResults 36, FormatIqmResult], fresh_job),
        Inl (ShapeValueError \<lparr>creg_len = 2, creg_idx = 0, clbit_idx = 1\<rparr> [3, 1] [2, 1]))
   \<and> status (constant_client two_registers bad_length_run) ([], fresh_job)
     = (([GetRun 36, FormatIqmResult], fresh_job),
        Inl (ShapeValueError \<lparr>creg_len = 2, creg_idx = 0, clbit_idx = 1\<rparr> [3, 1] [2, 1]))"
proof -
  let ?p = "table_parser two_registers"
  let ?ms = "measurements bad_length_run"
  let ?env = "constant_client two_registers bad_length_run"
  let ?err = "ShapeValueError \<lparr>creg_len = 2, creg_idx = 0, clbit_idx = 1\<rparr> [3, 1] [2, 1]"
  have g: "get_shots (Some 2) ?ms = Inr 2"
    by (simp add: bad_length_run_simps get_shots_def column_def)
  have split: "?ms = [(''c_2_0_0'', column [1, 0])] @ (''c_2_0_1'', column [1, 0, 1]) # []"
    by (simp add: bad_length_run_simps)
  have pre: "group_measurements ?p 2 [] [(''c_2_0_0'', column [1, 0])]
      = Inr [(0, \<lparr>ncols = 2, cells = [[1, 0], [0, 0]]\<rparr>)]"
    by code_simp
  have k: "?p ''c_2_0_1'' = Inr \<lparr>creg_len = 2, creg_idx = 0, clbit_idx = 1\<rparr>"
    by code_simp
  have s: "np_shape (column [1, 0, 1]) = Some [3, 1]" by code_simp
  have l: "py_len (column [1, 0, 1]) = Some 3" by code_simp
  note sv = shape_validation [OF g, of ?p]
  have f: "format_iqm_result ?p (Some 2) ?ms = Inl ?err"
    using sv [THEN conjunct2, rule_format,
        of "[(''c_2_0_0'', column [1, 0])]" "''c_2_0_1''" "column [1, 0, 1]" "[]"
          "[(0, \<lparr>ncols = 2, cells = [[1, 0], [0, 0]]\<rparr>)]"
          "\<lparr>creg_len = 2, creg_idx = 0, clbit_idx = 1\<rparr>" "[3, 1]" 3]
      split pre k s l
    by simp
  have bad: "\<exists>kv\<in>set ?ms. py_len (snd kv) \<noteq> Some 2"
    using l by (simp add: bad_length_run_simps)
  from sv [THEN conjunct1, rule_format, OF bad] f
  have jobs: "\<forall>env j tr u run today.
      mk_from_string env = ?p \<and> metadata_shots j = Some 2 \<and> measurements run = ?ms
      \<and> \<not> truthy (priv_result j) \<and> UUID env (job_id j) = Inr u
      \<longrightarrow> (wait_for_results env tr u = Inr run \<longrightarrow>
             result env today (tr, j) = ((tr @ [WaitForResults u, FormatIqmResult], j), Inl ?err))
         \<and> (get_run env tr u = Inr run \<and> run_status run = READY \<longrightarrow>
             status env (tr, j) = ((tr @ [GetRun u, FormatIqmResult], j), Inl ?err))"
    by auto
  have "result ?env 738097 ([], fresh_job) = (([] @ [WaitForResults 36, FormatIqmResult], fresh_job), Inl ?err)
    \<and> status ?env ([], fresh_job) = (([] @ [GetRun 36, FormatIqmResult], fresh_job), Inl ?err)"
    using jobs [rule_format, where env = ?env and j = fresh_job and u = 36 and tr = "[]"
        and run = bad_length_run and today = 738097]
    by (simp add: constant_client_simps fresh_job_simps truthy_def bad_length_run_simps)
  with f show ?thesis by simp
qed

text \<open>
  C2, as stated, fails: a ragged entry of the wrong length raises numpy's own error,
  which names no key; so does a ragged entry before the offending one; and an offending
  entry under a key that does not parse raises the parser's error.
\<close>

theorem shape_validation_counterexample:
  "get_shots (Some 3) [(''c_2_0_0'', ragged_entry)] = Inr 3
   \<and> py_len ragged_entry = Some 2
   \<and> format_iqm_result (table_parser two_registers) (Some 3) [(''c_2_0_0'', ragged_entry)]
       = Inl NumpyValueError
   \<and> get_shots (Some 2) [(''c_2_0_0'', ragged_entry), (''c_2_0_1'', column [1, 0, 1])] = Inr 2
   \<and> py_len (column [1, 0, 1]) = Some 3
   \<and> format_iqm_result (table_parser two_registers) (Some 2)
        [(''c_2_0_0'', ragged_entry), (''c_2_0_1'', column [1, 0, 1])]
       = Inl NumpyValueError
   \<and> get_shots (Some 2) [(''c_9_9_9'', column [1, 0, 1])] = Inr 2
   \<and> format_iqm_result (table_parser two_registers) (Some 2) [(''c_9_9_9'', column [1, 0, 1])]
       = Inl (ExternalError ''Invalid measurement key string representation.'')"
  by code_simp



section \<open>Shot count\<close>

text \<open>
  C6. With the shots recorded in the metadata and an empty measurement map, the
  reassembly raises \<^verbatim>\<open>StopIteration\<close>: the fallback
  \<^verbatim>\<open>len(next(iter(...)))\<close> is evaluated although the recorded count is present. On
  a map whose first entry is a list, the count is the recorded one when there is one and
  the length of the first entry otherwise.
\<close>

theorem shots_default_evaluated_eagerly:
  "format_iqm_result p (Some 1024) [] = Inl StopIteration
   \<and> get_shots (Some 1024) ((k, PList xs) # rest) = Inr 1024
   \<and> get_shots None ((k, PList xs) # rest) = Inr (length xs)"
  by (simp add: get_shots_def format_iqm_result_def)

section \<open>The job's state machine\<close>

text \<open>
  C8. In every state, \<^verbatim>\<open>submit()\<close> and \<^verbatim>\<open>cancel()\<close> raise
  \<^verbatim>\<open>NotImplementedError\<close> and change nothing, whatever the cache holds.
\<close>

theorem unsupported_operations:
  "submit (tr, j) = ((tr, j), Inl (NotImplementedError ''Instead, use IQMBackend.run to submit jobs.''))
   \<and> cancel (tr, j) = ((tr, j), Inl (NotImplementedError ''Canceling jobs is currently not supported.''))"
  by (simp add: submit_def cancel_def)

text \<open>
  C5. Once \<^verbatim>\<open>status()\<close> has returned \<open>DONE\<close>, any number of further calls return
  \<open>DONE\<close> and leave the state, hence also the trace of client calls, as it is: no
  \<^verbatim>\<open>get_run\<close> is made any more.
\<close>

theorem status_done_is_terminal:
  assumes "status env st = (st', Inr DONE)"
  shows "status_calls env n st' = (st', replicate n (Inr DONE))"
proof -
  obtain tr j where st: "st = (tr, j)" by (cases st)
  obtain tr' j' where st': "st' = (tr', j')" by (cases st')
  from assms st obtain mem where "priv_result (snd st') = Some mem" "mem \<noteq> []"
    by (auto elim: status_DONE)
  with st' have "status env st' = (st', Inr DONE)"
    by (simp add: status_cached)
  then show ?thesis
    by (induction n) simp_all
qed

theorem status_done_is_terminal_witness:
  "status (constant_client two_registers one_bit_run) ([], fresh_job)
     = (([GetRun 36, FormatIqmResult], fresh_job\<lparr>priv_result := Some [''01'', ''00'']\<rparr>), Inr DONE)
   \<and> status_calls (constant_client two_registers one_bit_run) 3
       ([GetRun 36, FormatIqmResult], fresh_job\<lparr>priv_result := Some [''01'', ''00'']\<rparr>)
     = (([GetRun 36, FormatIqmResult], fresh_job\<lparr>priv_result := Some [''01'', ''00'']\<rparr>),
        [Inr DONE, Inr DONE, Inr DONE])"
proof -
  have h: "status (constant_client two_registers one_bit_run) ([], fresh_job)
     = (([GetRun 36, FormatIqmResult], fresh_job\<lparr>priv_result := Some [''01'', ''00'']\<rparr>), Inr DONE)"
    by (rule status_fresh_job)
  from status_done_is_terminal [OF h, of 3] h show ?thesis
    by (simp add: numeral_3_eq_3)
qed

text \<open>
  C4, as amended. When a call of \<^verbatim>\<open>result()\<close> returns, a second call returns the
  same result except for the date, which is the day of the second call, and changes
  neither the cache nor the trace: no \<^verbatim>\<open>wait_for_results\<close>, no reassembly. The first
  call made exactly one \<^verbatim>\<open>wait_for_results\<close> and one reassembly pass when nothing was
  cached, and none when a result was.
\<close>

theorem result_caching:
  assumes "result env d1 st = (st1, Inr r1)"
  shows "result env d2 st1 = (st1, Inr (r1\<lparr>date := d2\<rparr>))
    \<and> (truthy (priv_result (snd st)) \<longrightarrow> fst st1 = fst st)
    \<and> (\<not> truthy (priv_result (snd st)) \<longrightarrow>
         (\<exists>u. fst st1 = fst st @ [WaitForResults u, FormatIqmResult]))"
proof -
  obtain tr j where st: "st = (tr, j)" by (cases st)
  from assms [unfolded st] show ?thesis
  proof (cases rule: result_Inr)
    case (cached mem)
    then show ?thesis
      by (simp add: st result_cached result_dict_def truthy_def)
  next
    case (fetched u run mem)
    then have "mem \<noteq> []" by (simp add: format_iqm_result_nonempty)
    with fetched show ?thesis
      by (simp add: st result_cached result_dict_def)
  qed
qed

theorem result_caching_witness:
  "result (constant_client two_registers one_bit_run) 738097 ([], fresh_job)
     = (([WaitForResults 36, FormatIqmResult], fresh_job\<lparr>priv_result := Some [''01'', ''00'']\<rparr>),
        Inr (result_dict (job_id fresh_job) [''01'', ''00''] 738097))
   \<and> result (constant_client two_registers one_bit_run) 738098
       ([WaitForResults 36, FormatIqmResult], fresh_job\<lparr>priv_result := Some [''01'', ''00'']\<rparr>)
     = (([WaitForResults 36, FormatIqmResult], fresh_job\<lparr>priv_result := Some [''01'', ''00'']\<rparr>),
        Inr ((result_dict (job_id fresh_job) [''01'', ''00''] 738097)\<lparr>date := 738098\<rparr>))"
proof -
  have h: "result (constant_client two_registers one_bit_run) 738097 ([], fresh_job)
     = (([WaitForResults 36, FormatIqmResult], fresh_job\<lparr>priv_result := Some [''01'', ''00'']\<rparr>),
        Inr (result_dict (job_id fresh_job) [''01'', ''00''] 738097))"
    by (rule result_fresh_job)
  from result_caching [OF h, of 738098] h show ?thesis
    by simp
qed

text \<open>
  C4, as stated, fails: two calls on different days return results that differ in
  the date.
\<close>

theorem result_caching_counterexample:
  "result (constant_client two_registers one_bit_run) 738097 ([], fresh_job)
     = (([WaitForResults 36, FormatIqmResult], fresh_job\<lparr>priv_result := Some [''01'', ''00'']\<rparr>),
        Inr (result_dict (job_id fresh_job) [''01'', ''00''] 738097))
   \<and> result (constant_client two_registers one_bit_run) 738098
       ([WaitForResults 36, FormatIqmResult], fresh_job\<lparr>priv_result := Some [''01'', ''00'']\<rparr>)
     = (([WaitForResults 36, FormatIqmResult], fresh_job\<lparr>priv_result := Some [''01'', ''00'']\<rparr>),
        Inr (result_dict (job_id fresh_job) [''01'', ''00''] 738098))
   \<and> result_dict (job_id fresh_job) [''01'', ''00''] 738097
       \<noteq> result_dict (job_id fresh_job) [''01'', ''00''] 738098"
  by (simp add: result_fresh_job result_cached result_dict_def)

text \<open>
  C7. Every result object that \<^verbatim>\<open>result()\<close> returns has one entry; its memory is the
  cached list, its shot count is the length of that list, and its counts map every
  bitstring of the list to the number of its occurrences and no other key.
\<close>

theorem histogram_correctness:
  assumes "result env today st = (st', Inr r)"
  shows "\<exists>e. results r = [e] \<and> priv_result (snd st') = Some (memory e)
    \<and> shots e = length (memory e) \<and> distinct (map fst (counts e))
    \<and> (\<forall>b. map_of (counts e) b =
          (if b \<in> set (memory e) then Some (count_list (memory e) b) else None))"
proof -
  obtain tr j where st: "st = (tr, j)" by (cases st)
  from assms [unfolded st] show ?thesis
    by (cases rule: result_Inr) (simp_all add: result_dict_def distinct_Counter map_of_Counter)
qed

theorem histogram_correctness_witness:
  "result (constant_client two_registers one_bit_run) 738097
       ([], fresh_job\<lparr>priv_result := Some [''00'', ''00'', ''01'']\<rparr>)
     = (([], fresh_job\<lparr>priv_result := Some [''00'', ''00'', ''01'']\<rparr>),
        Inr (result_dict (job_id fresh_job) [''00'', ''00'', ''01''] 738097))
   \<and> (\<exists>e. results (result_dict (job_id fresh_job) [''00'', ''00'', ''01''] 738097) = [e]
         \<and> memory e = [''00'', ''00'', ''01'']
         \<and> counts e = [(''00'', 2), (''01'', 1)] \<and> shots e = 3
         \<and> map_of (counts e) ''00'' = Some (count_list (memory e) ''00''))"
proof -
  have h: "result (constant_client two_registers one_bit_run) 738097
       ([], fresh_job\<lparr>priv_result := Some [''00'', ''00'', ''01'']\<rparr>)
     = (([], fresh_job\<lparr>priv_result := Some [''00'', ''00'', ''01'']\<rparr>),
        Inr (result_dict (job_id fresh_job) [''00'', ''00'', ''01''] 738097))"
    by (simp add: result_cached)
  have c: "Counter [''00'', ''00'', ''01''] = [(''00'', 2), (''01'', 1)]"
    by code_simp
  from histogram_correctness [OF h] obtain e where
    e: "results (result_dict (job_id fresh_job) [''00'', ''00'', ''01''] 738097) = [e]"
    and m: "map_of (counts e) ''00'' =
          (if ''00'' \<in> set (memory e) then Some (count_list (memory e) ''00'') else None)"
    by blast
  from e have "memory e = [''00'', ''00'', ''01'']" "counts e = [(''00'', 2), (''01'', 1)]" "shots e = 3"
    by (auto simp: result_dict_def c)
  with h e m show ?thesis by simp
qed




end
